theory Spec2Isabelle
  imports Complex_Main "HOL-Library.AList"
begin

section \<open>Data model\<close>

text \<open>
  The episode controller of the network attack simulator
  (\<^verbatim>\<open>cyber_attack_simulator/envs/environment.py\<close>) is embedded as functions over an
  explicit object store. Python exceptions are values of \<open>error\<close>; a function that may
  raise returns \<open>error + 'a\<close> with \<open>Inl\<close> the exception.
\<close>

datatype error = KeyError | IndexError | AssertionError

text \<open>\<^verbatim>\<open>class Service(Enum)\<close>: the agent's belief about one service of one machine.\<close>

datatype Service = unknown | present | absent

text \<open>An address is the pair \<^verbatim>\<open>(subnet_id, host_id)\<close>.\<close>

type_synonym address = "nat \<times> nat"

subsection \<open>Action\<close>

text \<open>
  Modelled from the spec: the class \<^verbatim>\<open>Action\<close> (\<^verbatim>\<open>envs/action.py\<close>) is imported by
  the environment but its file is not part of the sources. An action is an immutable
  value with a target address, a kind (scan or exploit), for an exploit a service index
  (\<^verbatim>\<open>None\<close> for a scan, as in \<^verbatim>\<open>Action(addr, "scan", None)\<close>), a cost and a success
  probability.
\<close>

datatype action_type = Scan | Exploit

record Action =
  target :: address
  atype :: action_type
  service :: "nat option"
  cost :: real
  prob :: real

definition is_scan :: "Action \<Rightarrow> bool" where
  "is_scan a = (atype a = Scan)"

subsection \<open>Network (ground truth)\<close>

text \<open>
  Modelled from the spec: the class \<^verbatim>\<open>Network\<close> (\<^verbatim>\<open>envs/network.py\<close>) is missing from
  the sources. Following the spec's data model, a machine carries a fixed vector of
  booleans (its vulnerabilities) and a reward value; the network owns the machines in
  address-space order, the number of subnets, the exposure flag of every subnet and the
  adjacency relation over subnet ids.
\<close>

record Machine =
  m_services :: "bool list"
  m_value :: real

record Network =
  num_subnets :: nat
  exposed :: "nat \<Rightarrow> bool"
  topology :: "nat \<Rightarrow> nat \<Rightarrow> bool"
  machines :: "(address \<times> Machine) list"

text \<open>Modelled from the spec: \<^verbatim>\<open>Network.get_address_space\<close>, the ordered sequence of all
  addresses.\<close>

definition get_address_space :: "Network \<Rightarrow> address list" where
  "get_address_space n = map fst (machines n)"

text \<open>Modelled from the spec: \<^verbatim>\<open>Network.subnet_exposed\<close>; a subnet id out of range is a
  contract violation that fails with an assertion.\<close>

definition subnet_exposed :: "Network \<Rightarrow> nat \<Rightarrow> error + bool" where
  "subnet_exposed n s =
     (if s < num_subnets n then Inr (exposed n s) else Inl AssertionError)"

text \<open>Modelled from the spec: \<^verbatim>\<open>Network.subnets_connected\<close>, with the same contract.\<close>

definition subnets_connected :: "Network \<Rightarrow> nat \<Rightarrow> nat \<Rightarrow> error + bool" where
  "subnets_connected n s1 s2 =
     (if s1 < num_subnets n \<and> s2 < num_subnets n then Inr (topology n s1 s2)
      else Inl AssertionError)"

text \<open>Modelled from the spec: \<^verbatim>\<open>Network.get_sensitive_machines\<close>, the goal addresses:
  every address with nonzero reward.\<close>

definition get_sensitive_machines :: "Network \<Rightarrow> address list" where
  "get_sensitive_machines n = map fst (filter (\<lambda>(a, m). m_value m \<noteq> 0) (machines n))"

text \<open>
  Modelled from the spec: \<^verbatim>\<open>Network.perform_action\<close> (section 4.3 of the spec), which
  is missing from the sources. The outcome of the random draw is the explicit argument
  \<open>u\<close>, a uniform sample of \<open>[0, 1)\<close>: an exploit of a vulnerable service succeeds when
  \<open>u < prob a\<close>, so probability 1 always succeeds. The result is
  \<open>(success, value, services)\<close>; a failed exploit reveals the empty vector.
  A nonexistent address or a service index out of range fails with an assertion.
\<close>

definition perform_action ::
  "Network \<Rightarrow> Action \<Rightarrow> real \<Rightarrow> error + (bool \<times> real \<times> bool list)" where
  "perform_action n a u =
     (case map_of (machines n) (target a) of
        None \<Rightarrow> Inl AssertionError
      | Some m \<Rightarrow>
          if is_scan a then Inr (True, 0, m_services m)
          else (case service a of
                  None \<Rightarrow> Inl AssertionError
                | Some s \<Rightarrow>
                    if \<not> s < length (m_services m) then Inl AssertionError
                    else if m_services m ! s then
                      (if u < prob a then Inr (True, m_value m, m_services m)
                       else Inr (False, 0, []))
                    else Inr (False, 0, [])))"

subsection \<open>State (the agent's observation)\<close>

text \<open>
  Modelled from the spec: the class \<^verbatim>\<open>State\<close> (\<^verbatim>\<open>envs/state.py\<close>) is missing from the
  sources. It wraps the ordered dictionary built by \<^verbatim>\<open>reset\<close>, which maps every address
  to \<^verbatim>\<open>[compromised, reachable, service_info]\<close>. A query or a mutator on an address
  that is not a key raises \<^verbatim>\<open>KeyError\<close>, a service index out of range raises
  \<^verbatim>\<open>IndexError\<close>.
\<close>

type_synonym machine_obs = "bool \<times> bool \<times> Service list"

type_synonym State = "(address \<times> machine_obs) list"

definition compromised :: "State \<Rightarrow> address \<Rightarrow> error + bool" where
  "compromised s m =
     (case map_of s m of None \<Rightarrow> Inl KeyError | Some (c, r, info) \<Rightarrow> Inr c)"

definition reachable :: "State \<Rightarrow> address \<Rightarrow> error + bool" where
  "reachable s m =
     (case map_of s m of None \<Rightarrow> Inl KeyError | Some (c, r, info) \<Rightarrow> Inr r)"

definition service_state :: "State \<Rightarrow> address \<Rightarrow> nat \<Rightarrow> error + Service" where
  "service_state s m i =
     (case map_of s m of
        None \<Rightarrow> Inl KeyError
      | Some (c, r, info) \<Rightarrow> if i < length info then Inr (info ! i) else Inl IndexError)"

definition update_service :: "State \<Rightarrow> address \<Rightarrow> nat \<Rightarrow> Service \<Rightarrow> error + State" where
  "update_service s m i v =
     (case map_of s m of
        None \<Rightarrow> Inl KeyError
      | Some (c, r, info) \<Rightarrow>
          if i < length info then Inr (AList.update m (c, r, info[i := v]) s)
          else Inl IndexError)"

definition set_compromised :: "State \<Rightarrow> address \<Rightarrow> error + State" where
  "set_compromised s m =
     (case map_of s m of
        None \<Rightarrow> Inl KeyError
      | Some (c, r, info) \<Rightarrow> Inr (AList.update m (True, r, info) s))"

definition set_reachable :: "State \<Rightarrow> address \<Rightarrow> error + State" where
  "set_reachable s m =
     (case map_of s m of
        None \<Rightarrow> Inl KeyError
      | Some (c, r, info) \<Rightarrow> Inr (AList.update m (c, True, info) s))"

subsection \<open>The object store\<close>

text \<open>
  \<^verbatim>\<open>State\<close> objects are mutable and are handed to the caller, so they live in a store:
  a reference is an index into the list of allocated objects. \<^verbatim>\<open>State(obs)\<close> and
  \<^verbatim>\<open>copy()\<close> allocate a new object; the mutators of the controller overwrite the object
  that \<^verbatim>\<open>self.current_state\<close> refers to.
\<close>

type_synonym ref = nat

type_synonym store = "State list"

definition alloc :: "store \<Rightarrow> State \<Rightarrow> ref \<times> store" where
  "alloc st s = (length st, st @ [s])"

text \<open>Modelled from the spec: \<^verbatim>\<open>State.copy\<close> returns a fully independent snapshot, that
  is a new object with the same contents.\<close>

definition copy_state :: "store \<Rightarrow> ref \<Rightarrow> ref \<times> store" where
  "copy_state st r = alloc st (st ! r)"

subsection \<open>The environment\<close>

text \<open>The fields of \<^verbatim>\<open>CyberAttackSimulatorEnv\<close> that the episode API reads or writes.\<close>

record Env =
  seed :: nat
  reset_count :: nat
  num_services :: nat
  network :: Network
  address_space :: "address list"
  current_state :: ref

section \<open>Operations\<close>

subsection \<open>reset\<close>

text \<open>The loop of \<^verbatim>\<open>reset\<close> over the address space, filling the ordered dictionary.\<close>

fun reset_obs :: "Network \<Rightarrow> nat \<Rightarrow> address list \<Rightarrow> State \<Rightarrow> error + State" where
  "reset_obs n k [] obs = Inr obs"
| "reset_obs n k (m # ms) obs =
     (let service_info = replicate k unknown
      in case subnet_exposed n (fst m) of
           Inl e \<Rightarrow> Inl e
         | Inr ex \<Rightarrow>
             reset_obs n k ms
               (AList.update m (False, (if ex then True else False), service_info) obs))"

definition reset :: "Env \<Rightarrow> store \<Rightarrow> error + (ref \<times> Env \<times> store)" where
  "reset env st =
     (case reset_obs (network env) (num_services env) (address_space env) [] of
        Inl e \<Rightarrow> Inl e
      | Inr obs \<Rightarrow>
          (let (r, st1) = alloc st obs;
               env1 = env\<lparr>current_state := r, reset_count := reset_count env + 1\<rparr>;
               (c, st2) = copy_state st1 r
           in Inr (c, env1, st2)))"

subsection \<open>The state update of one step\<close>

text \<open>The loop \<^verbatim>\<open>for s in range(len(services))\<close> of \<^verbatim>\<open>_update_state\<close>.\<close>

fun update_services :: "address \<Rightarrow> bool list \<Rightarrow> nat list \<Rightarrow> State \<Rightarrow> error + State" where
  "update_services tgt services [] s = Inr s"
| "update_services tgt services (i # is) s =
     (let new_state = (if services ! i then present else absent)
      in case update_service s tgt i new_state of
           Inl e \<Rightarrow> Inl e
         | Inr s1 \<Rightarrow> update_services tgt services is s1)"

text \<open>The loop of \<^verbatim>\<open>_update_reachable\<close> over the address space.\<close>

fun update_reachable_loop ::
  "Network \<Rightarrow> nat \<Rightarrow> address list \<Rightarrow> State \<Rightarrow> error + State" where
  "update_reachable_loop n comp_subnet [] s = Inr s"
| "update_reachable_loop n comp_subnet (m # ms) s =
     (case reachable s m of
        Inl e \<Rightarrow> Inl e
      | Inr r \<Rightarrow>
          if r then update_reachable_loop n comp_subnet ms s
          else (case subnets_connected n comp_subnet (fst m) of
                  Inl e \<Rightarrow> Inl e
                | Inr c \<Rightarrow>
                    if c then (case set_reachable s m of
                                 Inl e \<Rightarrow> Inl e
                               | Inr s1 \<Rightarrow> update_reachable_loop n comp_subnet ms s1)
                    else update_reachable_loop n comp_subnet ms s))"

definition update_reachable :: "Env \<Rightarrow> State \<Rightarrow> address \<Rightarrow> error + State" where
  "update_reachable env s compromised_m =
     update_reachable_loop (network env) (fst compromised_m) (address_space env) s"

text \<open>\<^verbatim>\<open>_update_state\<close>. In the last branch the attacked index is \<^verbatim>\<open>action.service\<close>; an
  exploit without a service index never arrives here through \<^verbatim>\<open>step\<close>, since
  \<^verbatim>\<open>perform_action\<close> rejects it first, and the model lets the indexing fail.\<close>

definition update_state ::
  "Env \<Rightarrow> State \<Rightarrow> Action \<Rightarrow> bool \<Rightarrow> bool list \<Rightarrow> error + State" where
  "update_state env s a success services =
     (if is_scan a \<or> (\<not> is_scan a \<and> success) then
        (case update_services (target a) services [0..<length services] s of
           Inl e \<Rightarrow> Inl e
         | Inr s1 \<Rightarrow>
             if \<not> is_scan a then
               (case set_compromised s1 (target a) of
                  Inl e \<Rightarrow> Inl e
                | Inr s2 \<Rightarrow> update_reachable env s2 (target a))
             else Inr s1)
      else
        (case service a of
           None \<Rightarrow> Inl IndexError
         | Some i \<Rightarrow> update_service s (target a) i absent))"

subsection \<open>The goal test\<close>

text \<open>The loop of \<^verbatim>\<open>_is_goal\<close>, with its early return.\<close>

fun is_goal_loop :: "State \<Rightarrow> address list \<Rightarrow> error + bool" where
  "is_goal_loop s [] = Inr True"
| "is_goal_loop s (m # ms) =
     (case compromised s m of
        Inl e \<Rightarrow> Inl e
      | Inr c \<Rightarrow> if \<not> c then Inr False else is_goal_loop s ms)"

definition is_goal :: "Env \<Rightarrow> State \<Rightarrow> error + bool" where
  "is_goal env s = is_goal_loop s (get_sensitive_machines (network env))"

subsection \<open>step\<close>

text \<open>
  \<^verbatim>\<open>step\<close> returns \<open>(obs, reward, done)\<close>, where \<open>obs\<close> is a reference to a \<^verbatim>\<open>State\<close>
  object, together with the store after the call. The first branch returns
  \<^verbatim>\<open>self.current_state\<close> itself; the last line returns \<^verbatim>\<open>self.current_state.copy()\<close>.
\<close>

definition step ::
  "Env \<Rightarrow> store \<Rightarrow> Action \<Rightarrow> real \<Rightarrow> error + ((ref \<times> real \<times> bool) \<times> store)" where
  "step env st a u =
     (let cur = current_state env in
      case reachable (st ! cur) (target a) of
        Inl e \<Rightarrow> Inl e
      | Inr r \<Rightarrow>
          if \<not> r then Inr ((cur, 0 - cost a, False), st)
          else
            (case perform_action (network env) a u of
               Inl e \<Rightarrow> Inl e
             | Inr (success, val, services) \<Rightarrow>
                 (case compromised (st ! cur) (target a) of
                    Inl e \<Rightarrow> Inl e
                  | Inr c \<Rightarrow>
                      (let val1 = (if c then 0 else val) in
                       case update_state env (st ! cur) a success services of
                         Inl e \<Rightarrow> Inl e
                       | Inr s1 \<Rightarrow>
                           (let st1 = st[cur := s1] in
                            case is_goal env s1 of
                              Inl e \<Rightarrow> Inl e
                            | Inr done \<Rightarrow>
                                (let reward = val1 - cost a;
                                     (obs, st2) = copy_state st1 cur
                                 in Inr ((obs, reward, done), st2)))))))"

subsection \<open>An episode of several steps\<close>

text \<open>A sequence of \<^verbatim>\<open>step\<close> calls between two resets: every call comes with its
  action and the sample of its random draw, and works on the store the previous call
  left. The result is the list of the triples returned to the caller and the final
  store; the sequence stops at the first exception.\<close>

fun episode ::
  "Env \<Rightarrow> store \<Rightarrow> (Action \<times> real) list \<Rightarrow> error + ((ref \<times> real \<times> bool) list \<times> store)" where
  "episode env st [] = Inr ([], st)"
| "episode env st ((a, u) # rest) =
     (case step env st a u of
        Inl e \<Rightarrow> Inl e
      | Inr (res, st1) \<Rightarrow>
          (case episode env st1 rest of
             Inl e \<Rightarrow> Inl e
           | Inr (ress, st2) \<Rightarrow> Inr (res # ress, st2)))"

section \<open>Well-formed environments\<close>

text \<open>
  What the constructor establishes: the address space is the network's, every machine
  lies in a subnet of the network and has one vulnerability flag per service.
\<close>

definition wf_env :: "Env \<Rightarrow> bool" where
  "wf_env env =
     (address_space env = get_address_space (network env) \<and>
      list_all (\<lambda>(a, m). fst a < num_subnets (network env) \<and>
                  length (m_services m) = num_services env)
        (machines (network env)))"

text \<open>What \<^verbatim>\<open>reset\<close> establishes and every \<^verbatim>\<open>step\<close> keeps: the observation has a
  record for every address, with one belief per service.\<close>

definition state_ok :: "Env \<Rightarrow> State \<Rightarrow> bool" where
  "state_ok env s =
     list_all (\<lambda>m. case map_of s m of
                      None \<Rightarrow> False
                    | Some (c, r, info) \<Rightarrow> length info = num_services env)
       (address_space env)"

text \<open>An action of the action space: its target is an address of the network and an
  exploit names a service of the environment.\<close>

definition valid_action :: "Env \<Rightarrow> Action \<Rightarrow> bool" where
  "valid_action env a =
     (target a \<in> set (address_space env) \<and>
      (is_scan a \<or> (case service a of None \<Rightarrow> False | Some i \<Rightarrow> i < num_services env)))"

text \<open>The order in which the update rules move an observation: keys and the lengths of
  the belief vectors stay, flags only go from false to true.\<close>

definition state_le :: "State \<Rightarrow> State \<Rightarrow> bool" where
  "state_le s s' =
     (\<forall>x c r info. map_of s x = Some (c, r, info) \<longrightarrow>
        (\<exists>c' r' info'. map_of s' x = Some (c', r', info') \<and>
           (c \<longrightarrow> c') \<and> (r \<longrightarrow> r') \<and> length info' = length info))"

section \<open>A concrete network\<close>

text \<open>
  Four subnets with one machine each and two services. Subnet 0 is exposed, subnets 0, 1
  and 2 are fully connected, subnet 3 is connected to subnet 2 only. The machines of
  subnets 1 and 2 carry a reward.
\<close>

definition example_network :: Network where
  "example_network =
     \<lparr>num_subnets = 4,
      exposed = (\<lambda>s. s = 0),
      topology = (\<lambda>a b. a = b \<or> (a < 3 \<and> b < 3) \<or> (a = 2 \<and> b = 3) \<or> (a = 3 \<and> b = 2)),
      machines =
        [((0, 0), \<lparr>m_services = [True, False], m_value = 0\<rparr>),
         ((1, 0), \<lparr>m_services = [True, True], m_value = 1000\<rparr>),
         ((2, 0), \<lparr>m_services = [False, True], m_value = 1000\<rparr>),
         ((3, 0), \<lparr>m_services = [True, False], m_value = 0\<rparr>)]\<rparr>"

text \<open>The environment before and after the \<^verbatim>\<open>reset\<close> of its constructor.\<close>

definition example_env_init :: Env where
  "example_env_init =
     \<lparr>seed = 1, reset_count = 0, num_services = 2, network = example_network,
      address_space = [(0, 0), (1, 0), (2, 0), (3, 0)], current_state = 0\<rparr>"

definition example_env :: Env where
  "example_env = example_env_init\<lparr>current_state := 0, reset_count := 1\<rparr>"

definition example_state0 :: State where
  "example_state0 =
     [((0, 0), (False, True, [unknown, unknown])),
      ((1, 0), (False, False, [unknown, unknown])),
      ((2, 0), (False, False, [unknown, unknown])),
      ((3, 0), (False, False, [unknown, unknown]))]"

text \<open>The observation after the machine \<open>(0, 0)\<close> has been exploited through service 0.\<close>

definition example_state1 :: State where
  "example_state1 =
     [((0, 0), (True, True, [present, absent])),
      ((1, 0), (False, True, [unknown, unknown])),
      ((2, 0), (False, True, [unknown, unknown])),
      ((3, 0), (False, False, [unknown, unknown]))]"

text \<open>The observation after \<open>(1, 0)\<close> has been exploited too, and after \<open>(2, 0)\<close>.\<close>

definition example_state2 :: State where
  "example_state2 =
     [((0, 0), (True, True, [present, absent])),
      ((1, 0), (True, True, [present, present])),
      ((2, 0), (False, True, [unknown, unknown])),
      ((3, 0), (False, False, [unknown, unknown]))]"

definition example_state3 :: State where
  "example_state3 =
     [((0, 0), (True, True, [present, absent])),
      ((1, 0), (True, True, [present, present])),
      ((2, 0), (True, True, [absent, present])),
      ((3, 0), (False, True, [unknown, unknown]))]"

text \<open>The observation after \<open>(3, 0)\<close> has been exploited as well.\<close>

definition example_state4 :: State where
  "example_state4 =
     [((0, 0), (True, True, [present, absent])),
      ((1, 0), (True, True, [present, present])),
      ((2, 0), (True, True, [absent, present])),
      ((3, 0), (True, True, [present, absent]))]"

text \<open>The initial observation after a scan of \<open>(0, 0)\<close>, and after an exploit of its
  service 0 that failed.\<close>

definition example_state_scan :: State where
  "example_state_scan =
     [((0, 0), (False, True, [present, absent])),
      ((1, 0), (False, False, [unknown, unknown])),
      ((2, 0), (False, False, [unknown, unknown])),
      ((3, 0), (False, False, [unknown, unknown]))]"

definition example_state_miss :: State where
  "example_state_miss =
     [((0, 0), (False, True, [absent, unknown])),
      ((1, 0), (False, False, [unknown, unknown])),
      ((2, 0), (False, False, [unknown, unknown])),
      ((3, 0), (False, False, [unknown, unknown]))]"

text \<open>The observation after a scan of \<open>(0, 0)\<close> followed by an exploit of its service 0
  that failed.\<close>

definition example_state_scan_miss :: State where
  "example_state_scan_miss =
     [((0, 0), (False, True, [absent, absent])),
      ((1, 0), (False, False, [unknown, unknown])),
      ((2, 0), (False, False, [unknown, unknown])),
      ((3, 0), (False, False, [unknown, unknown]))]"

text \<open>Actions of cost 1: deterministic exploits, a scan, and an exploit that succeeds
  with probability one half.\<close>

definition exploit_action :: "address \<Rightarrow> nat \<Rightarrow> Action" where
  "exploit_action m i =
     \<lparr>target = m, atype = Exploit, service = Some i, cost = 1, prob = 1\<rparr>"

definition scan_action :: "address \<Rightarrow> Action" where
  "scan_action m = \<lparr>target = m, atype = Scan, service = None, cost = 1, prob = 1\<rparr>"

definition risky_exploit :: "address \<Rightarrow> nat \<Rightarrow> Action" where
  "risky_exploit m i =
     \<lparr>target = m, atype = Exploit, service = Some i, cost = 1, prob = 1 / 2\<rparr>"

section \<open>Auxiliary facts about the state operations\<close>

lemma update_service_Inr:
  assumes "update_service s m i v = Inr s'"
  obtains c r info where "map_of s m = Some (c, r, info)" "i < length info"
    "map_of s' = (map_of s)(m \<mapsto> (c, r, info[i := v]))"
  using assms
  by (auto simp: update_service_def update_conv' split: option.splits if_splits)

lemma set_compromised_Inr:
  assumes "set_compromised s m = Inr s'"
  obtains c r info where "map_of s m = Some (c, r, info)"
    "map_of s' = (map_of s)(m \<mapsto> (True, r, info))"
  using assms
  by (auto simp: set_compromised_def update_conv' split: option.splits)

lemma set_reachable_Inr:
  assumes "set_reachable s m = Inr s'"
  obtains c r info where "map_of s m = Some (c, r, info)"
    "map_of s' = (map_of s)(m \<mapsto> (c, True, info))"
  using assms
  by (auto simp: set_reachable_def update_conv' split: option.splits)

lemma update_services_target:
  "update_services t sv is s = Inr s' \<Longrightarrow> map_of s t = Some (c, r, info) \<Longrightarrow>
   \<exists>info'. map_of s' t = Some (c, r, info') \<and> length info' = length info \<and>
     (\<forall>i \<in> set is. i < length info) \<and>
     (\<forall>i < length info. info' ! i =
        (if i \<in> set is then (if sv ! i then present else absent) else info ! i))"
proof (induction "is" arbitrary: s info)
  case Nil
  then show ?case by simp
next
  case (Cons i "is")
  let ?v = "if sv ! i then present else absent"
  from Cons.prems(1) obtain s1 where
    u: "update_service s t i ?v = Inr s1"
    and rest: "update_services t sv is s1 = Inr s'"
    by (auto simp: Let_def split: sum.splits)
  from u Cons.prems(2) have i: "i < length info"
    and s1: "map_of s1 t = Some (c, r, info[i := ?v])"
    by (auto elim!: update_service_Inr)
  from Cons.IH [OF rest s1] obtain info' where
    a: "map_of s' t = Some (c, r, info')" and b: "length info' = length info"
    and d: "\<forall>j \<in> set is. j < length info"
    and e: "\<forall>j < length info. info' ! j =
        (if j \<in> set is then (if sv ! j then present else absent) else (info[i := ?v]) ! j)"
    by auto
  have "\<forall>j < length info. info' ! j =
        (if j \<in> set (i # is) then (if sv ! j then present else absent) else info ! j)"
    using e i by (auto simp: nth_list_update)
  with a b d i show ?case by auto
qed

lemma is_goal_loop_iff:
  "is_goal_loop s ms = Inr b \<Longrightarrow> b = (\<forall>m \<in> set ms. compromised s m = Inr True)"
  by (induction ms) (auto split: sum.splits if_splits)

lemma update_reachable_loop_conv:
  "update_reachable_loop n cs ms s = Inr s' \<Longrightarrow>
   map_of s' x = (case map_of s x of None \<Rightarrow> None
     | Some (c, r, info) \<Rightarrow>
         Some (c, r \<or> (x \<in> set ms \<and> subnets_connected n cs (fst x) = Inr True), info))"
proof (induction ms arbitrary: s)
  case Nil
  then show ?case by (auto split: option.splits)
next
  case (Cons m ms)
  from Cons.prems obtain r where r: "reachable s m = Inr r"
    by (auto split: sum.splits)
  show ?case
  proof (cases r)
    case True
    with r Cons.prems have "update_reachable_loop n cs ms s = Inr s'" by simp
    from Cons.IH [OF this] r True show ?thesis
      by (auto simp: reachable_def split: option.splits)
  next
    case False
    with r Cons.prems obtain c where c: "subnets_connected n cs (fst m) = Inr c"
      by (auto split: sum.splits)
    show ?thesis
    proof (cases c)
      case True
      with r False c Cons.prems obtain s1 where
        sr: "set_reachable s m = Inr s1" and rest: "update_reachable_loop n cs ms s1 = Inr s'"
        by (auto split: sum.splits)
      from sr obtain c0 r0 i0 where "map_of s m = Some (c0, r0, i0)"
        "map_of s1 = (map_of s)(m \<mapsto> (c0, True, i0))"
        by (rule set_reachable_Inr)
      with Cons.IH [OF rest] True c r False show ?thesis
        by (auto simp: reachable_def split: option.splits)
    next
      case nc: False
      with r False c Cons.prems have "update_reachable_loop n cs ms s = Inr s'" by simp
      from Cons.IH [OF this] r False nc c show ?thesis
        by (auto simp: reachable_def split: option.splits)
    qed
  qed
qed

lemma update_reachable_loop_keys:
  "update_reachable_loop n cs ms s = Inr s' \<Longrightarrow> m \<in> set ms \<Longrightarrow> map_of s m \<noteq> None"
proof (induction ms arbitrary: s)
  case Nil
  then show ?case by simp
next
  case (Cons m0 ms)
  from Cons.prems(1) obtain r where r: "reachable s m0 = Inr r"
    by (auto split: sum.splits)
  then have k0: "map_of s m0 \<noteq> None"
    by (auto simp: reachable_def split: option.splits)
  show ?case
  proof (cases "m = m0")
    case True
    with k0 show ?thesis by simp
  next
    case False
    with Cons.prems(2) have mem: "m \<in> set ms" by simp
    from Cons.prems(1) r consider
      (same) "update_reachable_loop n cs ms s = Inr s'"
      | (upd) s1 where "set_reachable s m0 = Inr s1" "update_reachable_loop n cs ms s1 = Inr s'"
      by (auto split: sum.splits if_splits)
    then show ?thesis
    proof cases
      case same
      from Cons.IH [OF same mem] show ?thesis .
    next
      case upd
      from Cons.IH [OF upd(2) mem] have "map_of s1 m \<noteq> None" .
      with upd(1) False show ?thesis
        by (auto elim!: set_reachable_Inr)
    qed
  qed
qed

subsection \<open>Flags only grow\<close>

lemma state_le_refl: "state_le s s"
  by (simp add: state_le_def)

lemma state_le_trans: "state_le s1 s2 \<Longrightarrow> state_le s2 s3 \<Longrightarrow> state_le s1 s3"
  unfolding state_le_def by (metis (no_types, lifting))

lemma update_service_le: "update_service s m i v = Inr s' \<Longrightarrow> state_le s s'"
  by (erule update_service_Inr) (auto simp: state_le_def)

lemma set_compromised_le: "set_compromised s m = Inr s' \<Longrightarrow> state_le s s'"
  by (erule set_compromised_Inr) (auto simp: state_le_def)

lemma update_services_le: "update_services t sv is s = Inr s' \<Longrightarrow> state_le s s'"
proof (induction "is" arbitrary: s)
  case Nil
  then show ?case by (simp add: state_le_refl)
next
  case (Cons i "is")
  from Cons.prems obtain s1 where
    u: "update_service s t i (if sv ! i then present else absent) = Inr s1"
    and r: "update_services t sv is s1 = Inr s'"
    by (auto simp: Let_def split: sum.splits)
  from update_service_le [OF u] Cons.IH [OF r] show ?case
    by (rule state_le_trans)
qed

lemma update_reachable_loop_le:
  "update_reachable_loop n cs ms s = Inr s' \<Longrightarrow> state_le s s'"
  unfolding state_le_def
  by (auto simp: update_reachable_loop_conv)

lemma update_state_le:
  assumes "update_state env s a success services = Inr s'"
  shows "state_le s s'"
proof (cases "is_scan a \<or> (\<not> is_scan a \<and> success)")
  case True
  with assms obtain s1 where
    s1: "update_services (target a) services [0..<length services] s = Inr s1"
    and rest: "if \<not> is_scan a
               then (case set_compromised s1 (target a) of Inl e \<Rightarrow> Inl e
                     | Inr s2 \<Rightarrow> update_reachable env s2 (target a)) = Inr s'
               else s' = s1"
    by (auto simp: update_state_def split: sum.splits if_splits)
  have le1: "state_le s s1" using s1 by (rule update_services_le)
  show ?thesis
  proof (cases "is_scan a")
    case True
    with rest le1 show ?thesis by simp
  next
    case False
    with rest obtain s2 where s2: "set_compromised s1 (target a) = Inr s2"
      and s3: "update_reachable env s2 (target a) = Inr s'"
      by (auto split: sum.splits)
    from s3 have "state_le s2 s'"
      by (auto simp: update_reachable_def intro: update_reachable_loop_le)
    with le1 set_compromised_le [OF s2] show ?thesis
      by (blast intro: state_le_trans)
  qed
next
  case False
  with assms show ?thesis
    by (auto simp: update_state_def split: option.splits intro: update_service_le)
qed

lemma state_leD:
  "state_le s s' \<Longrightarrow> map_of s x = Some (c, r, info) \<Longrightarrow>
   \<exists>c' r' info'. map_of s' x = Some (c', r', info') \<and>
     (c \<longrightarrow> c') \<and> (r \<longrightarrow> r') \<and> length info' = length info"
  unfolding state_le_def by fast

lemma state_le_reachable:
  assumes "state_le s s'" and "reachable s m = Inr True"
  shows "reachable s' m = Inr True"
proof -
  from assms(2) obtain c info where "map_of s m = Some (c, True, info)"
    by (auto simp: reachable_def split: option.splits)
  from state_leD [OF assms(1) this] obtain c' info' where
    "map_of s' m = Some (c', True, info')"
    by auto
  then show ?thesis by (simp add: reachable_def)
qed

lemma state_le_compromised:
  assumes "state_le s s'" and "compromised s m = Inr True"
  shows "compromised s' m = Inr True"
proof -
  from assms(2) obtain r info where "map_of s m = Some (True, r, info)"
    by (auto simp: compromised_def split: option.splits)
  from state_leD [OF assms(1) this] obtain r' info' where
    "map_of s' m = Some (True, r', info')"
    by auto
  then show ?thesis by (simp add: compromised_def)
qed

lemma state_le_ok: "state_le s s' \<Longrightarrow> state_ok env s \<Longrightarrow> state_ok env s'"
  by (fastforce simp: state_le_def state_ok_def list_all_iff split: option.splits)

subsection \<open>The two branches of step\<close>

lemma step_unreachable:
  "reachable (st ! current_state env) (target a) = Inr False \<Longrightarrow>
   step env st a u = Inr ((current_state env, - cost a, False), st)"
  by (simp add: step_def)

lemma step_reachable:
  assumes "step env st a u = Inr ((obs, rew, done), st')"
    and "reachable (st ! current_state env) (target a) = Inr True"
    and "current_state env < length st"
  obtains success val sv c s1 where
    "perform_action (network env) a u = Inr (success, val, sv)"
    "compromised (st ! current_state env) (target a) = Inr c"
    "update_state env (st ! current_state env) a success sv = Inr s1"
    "is_goal env s1 = Inr done"
    "rew = (if c then 0 else val) - cost a"
    "obs = length st"
    "st' = st[current_state env := s1] @ [s1]"
  using assms
  by (auto simp: step_def Let_def alloc_def copy_state_def split: sum.splits)

lemma step_cases:
  assumes "step env st a u = Inr ((obs, rew, done), st')"
  obtains
    (unreachable) "reachable (st ! current_state env) (target a) = Inr False"
  | (reachable) "reachable (st ! current_state env) (target a) = Inr True"
  using assms by (auto simp: step_def Let_def split: sum.splits)

subsection \<open>Steps and episodes\<close>

lemma step_le:
  assumes "step env st a u = Inr (res, st')" and "current_state env < length st"
  shows "state_le (st ! current_state env) (st' ! current_state env) \<and>
         current_state env < length st'"
proof -
  obtain obs rew dn where res: "res = (obs, rew, dn)" by (cases res) auto
  from assms(1) [unfolded res] show ?thesis
  proof (cases rule: step_cases)
    case unreachable
    from step_unreachable [OF this, of u] assms show ?thesis
      by (simp add: state_le_refl)
  next
    case reachable
    from assms(1) [unfolded res] reachable assms(2) show ?thesis
    proof (rule step_reachable)
      fix success val sv c s1
      assume "update_state env (st ! current_state env) a success sv = Inr s1"
        and "st' = st[current_state env := s1] @ [s1]"
      with assms(2) update_state_le show ?thesis
        by (auto simp: nth_append)
    qed
  qed
qed

lemma step_reward_compromised:
  assumes "step env st a u = Inr ((obs, rew, done), st')"
    and "compromised (st ! current_state env) (target a) = Inr True"
  shows "rew = - cost a"
  using assms by (auto simp: step_def Let_def split: sum.splits if_splits prod.splits)

lemma perform_action_value:
  "perform_action n a u = Inr (success, val, sv) \<Longrightarrow> val \<noteq> 0 \<Longrightarrow> success \<and> \<not> is_scan a"
  by (auto simp: perform_action_def split: option.splits if_splits)

lemma update_state_exploit_compromised:
  assumes "update_state env s a True sv = Inr s'" and "\<not> is_scan a"
  shows "compromised s' (target a) = Inr True"
proof -
  from assms obtain s1 s2 where
    "set_compromised s1 (target a) = Inr s2" and l: "update_reachable env s2 (target a) = Inr s'"
    by (auto simp: update_state_def split: sum.splits)
  then have "compromised s2 (target a) = Inr True"
    by (auto elim!: set_compromised_Inr simp: compromised_def)
  moreover from l have "state_le s2 s'"
    by (simp add: update_reachable_def update_reachable_loop_le)
  ultimately show ?thesis by (simp add: state_le_compromised)
qed

lemma step_value_compromises:
  assumes "step env st a u = Inr ((obs, rew, done), st')"
    and "current_state env < length st" and "rew \<noteq> - cost a"
  shows "compromised (st' ! current_state env) (target a) = Inr True"
  using assms(1)
proof (cases rule: step_cases)
  case unreachable
  from step_unreachable [OF this, of u] assms show ?thesis by simp
next
  case reachable
  from assms(1) reachable assms(2) show ?thesis
  proof (rule step_reachable)
    fix success val sv c s1
    assume pa: "perform_action (network env) a u = Inr (success, val, sv)"
      and us: "update_state env (st ! current_state env) a success sv = Inr s1"
      and rew: "rew = (if c then 0 else val) - cost a"
      and st': "st' = st[current_state env := s1] @ [s1]"
    from rew assms(3) have "val \<noteq> 0" by (auto split: if_splits)
    from perform_action_value [OF pa this] us
    have "compromised s1 (target a) = Inr True"
      by (auto intro: update_state_exploit_compromised)
    with st' assms(2) show ?thesis by (simp add: nth_append)
  qed
qed

lemma episode_length:
  "episode env st acts = Inr (results, st') \<Longrightarrow> length results = length acts"
  by (induction acts arbitrary: st results) (auto split: sum.splits prod.splits)

lemma episode_le:
  "episode env st acts = Inr (results, st') \<Longrightarrow> current_state env < length st \<Longrightarrow>
   state_le (st ! current_state env) (st' ! current_state env) \<and>
   current_state env < length st'"
proof (induction acts arbitrary: st results)
  case Nil
  then show ?case by (simp add: state_le_refl)
next
  case (Cons p acts)
  obtain a u where p: "p = (a, u)" by (cases p) auto
  from Cons.prems(1) [unfolded p] obtain res st1 ress where
    s: "step env st a u = Inr (res, st1)" and e: "episode env st1 acts = Inr (ress, st')"
    by (auto split: sum.splits prod.splits)
  from step_le [OF s Cons.prems(2)] Cons.IH [OF e] show ?case
    by (blast intro: state_le_trans)
qed

lemma episode_compromised_reward:
  "episode env st acts = Inr (results, st') \<Longrightarrow> current_state env < length st \<Longrightarrow>
   compromised (st ! current_state env) m = Inr True \<Longrightarrow>
   i < length acts \<Longrightarrow> target (fst (acts ! i)) = m \<Longrightarrow>
   fst (snd (results ! i)) = - cost (fst (acts ! i))"
proof (induction acts arbitrary: st results i)
  case Nil
  then show ?case by simp
next
  case (Cons p acts)
  obtain a u where p: "p = (a, u)" by (cases p) auto
  from Cons.prems(1) [unfolded p] obtain res st1 ress where
    s: "step env st a u = Inr (res, st1)" and e: "episode env st1 acts = Inr (ress, st')"
    and r: "results = res # ress"
    by (auto split: sum.splits prod.splits)
  obtain obs rew dn where res: "res = (obs, rew, dn)" by (cases res) auto
  show ?case
  proof (cases i)
    case 0
    with Cons.prems(3,5) p have "compromised (st ! current_state env) (target a) = Inr True"
      by simp
    from step_reward_compromised [OF s [unfolded res] this] 0 r res p show ?thesis by simp
  next
    case (Suc j)
    from step_le [OF s Cons.prems(2)] Cons.prems(3)
    have "current_state env < length st1"
      and "compromised (st1 ! current_state env) m = Inr True"
      by (auto intro: state_le_compromised)
    from Cons.IH [OF e this, of j] Cons.prems(4,5) Suc r show ?thesis by simp
  qed
qed

subsection \<open>No exception on well-formed input\<close>

lemma state_ok_key:
  "state_ok env s \<Longrightarrow> m \<in> set (address_space env) \<Longrightarrow>
   \<exists>c r info. map_of s m = Some (c, r, info) \<and> length info = num_services env"
  by (auto simp: state_ok_def list_all_iff split: option.splits)

lemma wf_env_machine:
  "wf_env env \<Longrightarrow> map_of (machines (network env)) t = Some m \<Longrightarrow>
   fst t < num_subnets (network env) \<and> length (m_services m) = num_services env \<and>
   t \<in> set (address_space env)"
  by (force simp: wf_env_def list_all_iff get_address_space_def dest!: map_of_SomeD)

lemma wf_env_address:
  assumes "wf_env env" and "t \<in> set (address_space env)"
  shows "\<exists>m. map_of (machines (network env)) t = Some m"
proof -
  from assms have "t \<in> fst ` set (machines (network env))"
    by (simp add: wf_env_def get_address_space_def)
  then have "map_of (machines (network env)) t \<noteq> None"
    by (simp add: map_of_eq_None_iff)
  then show ?thesis by auto
qed

lemma perform_action_total:
  assumes "wf_env env" and "valid_action env a"
  shows "\<exists>success val sv. perform_action (network env) a u = Inr (success, val, sv)"
proof -
  from assms(2) have "target a \<in> set (address_space env)"
    by (simp add: valid_action_def)
  from wf_env_address [OF assms(1) this] obtain m where
    m: "map_of (machines (network env)) (target a) = Some m"
    by blast
  from wf_env_machine [OF assms(1) m] have "length (m_services m) = num_services env"
    by simp
  with m assms(2) show ?thesis
    by (auto simp: perform_action_def valid_action_def split: option.splits)
qed

lemma perform_action_services:
  assumes "perform_action n a u = Inr (success, val, sv)"
  shows "if is_scan a \<or> success
         then \<exists>m. map_of (machines n) (target a) = Some m \<and> sv = m_services m
         else sv = []"
  using assms
  by (auto simp: perform_action_def split: option.splits if_splits)

lemma update_services_total:
  "map_of s t = Some (c, r, info) \<Longrightarrow> \<forall>i \<in> set is. i < length info \<Longrightarrow>
   \<exists>s'. update_services t sv is s = Inr s'"
proof (induction "is" arbitrary: s info)
  case Nil
  then show ?case by simp
next
  case (Cons i "is")
  let ?v = "if sv ! i then present else absent"
  let ?s1 = "AList.update t (c, r, info[i := ?v]) s"
  from Cons.prems have u: "update_service s t i ?v = Inr ?s1"
    by (simp add: update_service_def)
  have "map_of ?s1 t = Some (c, r, info[i := ?v])"
    by (simp add: update_conv')
  from Cons.IH [OF this] Cons.prems(2) obtain s' where
    "update_services t sv is ?s1 = Inr s'"
    by auto
  with u show ?case by (simp add: Let_def)
qed

lemma update_reachable_loop_total:
  "cs < num_subnets n \<Longrightarrow>
   \<forall>m \<in> set ms. map_of s m \<noteq> None \<and> fst m < num_subnets n \<Longrightarrow>
   \<exists>s'. update_reachable_loop n cs ms s = Inr s'"
proof (induction ms arbitrary: s)
  case Nil
  then show ?case by simp
next
  case (Cons m ms)
  from Cons.prems(2) obtain c r info where k: "map_of s m = Some (c, r, info)"
    by (cases "map_of s m") auto
  let ?s1 = "AList.update m (c, True, info) s"
  have "\<forall>x \<in> set ms. map_of ?s1 x \<noteq> None \<and> fst x < num_subnets n"
    using Cons.prems(2) by (auto simp: update_conv')
  from Cons.IH [OF Cons.prems(1) this] obtain s1' where
    a: "update_reachable_loop n cs ms ?s1 = Inr s1'"
    by auto
  have "\<forall>x \<in> set ms. map_of s x \<noteq> None \<and> fst x < num_subnets n"
    using Cons.prems(2) by simp
  from Cons.IH [OF Cons.prems(1) this] obtain s0' where
    b: "update_reachable_loop n cs ms s = Inr s0'"
    by auto
  from Cons.prems have "subnets_connected n cs (fst m) = Inr (topology n cs (fst m))"
    by (simp add: subnets_connected_def)
  with k a b show ?case
    by (simp add: reachable_def set_reachable_def)
qed

lemma is_goal_loop_total:
  "\<forall>m \<in> set ms. map_of s m \<noteq> None \<Longrightarrow> \<exists>b. is_goal_loop s ms = Inr b"
  by (induction ms) (auto simp: compromised_def split: option.splits)

lemma state_le_key: "state_le s s' \<Longrightarrow> map_of s m \<noteq> None \<Longrightarrow> map_of s' m \<noteq> None"
  using state_leD by fastforce

lemma update_state_total:
  assumes wf: "wf_env env" and ok: "state_ok env s" and va: "valid_action env a"
    and pa: "perform_action (network env) a u = Inr (success, val, sv)"
  shows "\<exists>s'. update_state env s a success sv = Inr s'"
proof -
  from va have t: "target a \<in> set (address_space env)"
    by (simp add: valid_action_def)
  from state_ok_key [OF ok t] obtain c r info where
    k: "map_of s (target a) = Some (c, r, info)" and len: "length info = num_services env"
    by auto
  show ?thesis
  proof (cases "is_scan a \<or> success")
    case True
    with perform_action_services [OF pa] obtain m where
      m: "map_of (machines (network env)) (target a) = Some m" and sv: "sv = m_services m"
      by auto
    from wf_env_machine [OF wf m] sv len have "length sv = length info"
      and subnet: "fst (target a) < num_subnets (network env)"
      by simp_all
    then have "\<forall>i \<in> set [0..<length sv]. i < length info" by simp
    from update_services_total [OF k this] obtain s1 where
      s1: "update_services (target a) sv [0..<length sv] s = Inr s1"
      by auto
    show ?thesis
    proof (cases "is_scan a")
      case True
      with s1 show ?thesis by (simp add: update_state_def)
    next
      case False
      from update_services_le [OF s1] have le1: "state_le s s1" .
      from k have "map_of s (target a) \<noteq> None" by simp
      from state_le_key [OF le1 this] obtain c1 r1 i1 where
        "map_of s1 (target a) = Some (c1, r1, i1)"
        by (metis not_None_eq prod_cases3)
      then obtain s2 where s2: "set_compromised s1 (target a) = Inr s2"
        by (auto simp: set_compromised_def)
      from set_compromised_le [OF s2] le1 have le2: "state_le s s2"
        by (blast intro: state_le_trans)
      have "\<forall>x \<in> set (address_space env).
              map_of s2 x \<noteq> None \<and> fst x < num_subnets (network env)"
      proof
        fix x
        assume x: "x \<in> set (address_space env)"
        from state_ok_key [OF ok x] have "map_of s x \<noteq> None" by auto
        with le2 have "map_of s2 x \<noteq> None" by (rule state_le_key)
        moreover from wf_env_address [OF wf x] wf_env_machine [OF wf]
        have "fst x < num_subnets (network env)" by blast
        ultimately show "map_of s2 x \<noteq> None \<and> fst x < num_subnets (network env)" ..
      qed
      from update_reachable_loop_total [OF subnet this] obtain s3 where
        "update_reachable env s2 (target a) = Inr s3"
        by (auto simp: update_reachable_def)
      with s1 s2 False True show ?thesis
        by (simp add: update_state_def)
    qed
  next
    case False
    with va obtain i where i: "service a = Some i" "i < num_services env"
      by (auto simp: valid_action_def split: option.splits)
    with k len False show ?thesis
      by (simp add: update_state_def update_service_def)
  qed
qed

lemma is_goal_total:
  assumes "wf_env env" and "state_ok env s"
  shows "\<exists>b. is_goal env s = Inr b"
proof -
  have "\<forall>m \<in> set (get_sensitive_machines (network env)). map_of s m \<noteq> None"
  proof
    fix m
    assume "m \<in> set (get_sensitive_machines (network env))"
    with assms(1) have "m \<in> set (address_space env)"
      by (auto simp: get_sensitive_machines_def wf_env_def get_address_space_def)
    from state_ok_key [OF assms(2) this] show "map_of s m \<noteq> None" by auto
  qed
  then show ?thesis
    unfolding is_goal_def by (rule is_goal_loop_total)
qed

lemma step_total:
  assumes wf: "wf_env env" and ok: "state_ok env (st ! current_state env)"
    and va: "valid_action env a"
  shows "\<exists>res st'. step env st a u = Inr (res, st')"
proof -
  let ?s = "st ! current_state env"
  from va have t: "target a \<in> set (address_space env)"
    by (simp add: valid_action_def)
  from state_ok_key [OF ok t] obtain c r info where
    k: "map_of ?s (target a) = Some (c, r, info)"
    by auto
  from perform_action_total [OF wf va] obtain success val sv where
    pa: "perform_action (network env) a u = Inr (success, val, sv)"
    by blast
  from update_state_total [OF wf ok va pa] obtain s1 where
    us: "update_state env ?s a success sv = Inr s1"
    by auto
  from update_state_le [OF us] ok have "state_ok env s1"
    by (rule state_le_ok)
  from is_goal_total [OF wf this] obtain b where "is_goal env s1 = Inr b" by auto
  with k pa us show ?thesis
    by (auto simp: step_def Let_def reachable_def compromised_def alloc_def copy_state_def)
qed

lemma step_ok:
  assumes "step env st a u = Inr (res, st')" and "current_state env < length st"
    and "state_ok env (st ! current_state env)"
  shows "state_ok env (st' ! current_state env)"
  using step_le [OF assms(1,2)] assms(3) by (auto intro: state_le_ok)

subsection \<open>Goal test and reachability after an update\<close>

lemma is_goal_iff:
  "is_goal env s = Inr b \<Longrightarrow>
   b = (\<forall>m \<in> set (get_sensitive_machines (network env)). compromised s m = Inr True)"
  unfolding is_goal_def by (rule is_goal_loop_iff)

lemma update_service_flags:
  assumes "update_service s t i v = Inr s'"
  shows "reachable s' x = reachable s x \<and> compromised s' x = compromised s x"
  using assms
  by (auto elim!: update_service_Inr simp: reachable_def compromised_def)

lemma update_services_flags:
  "update_services t sv is s = Inr s' \<Longrightarrow>
   reachable s' x = reachable s x \<and> compromised s' x = compromised s x"
proof (induction "is" arbitrary: s)
  case Nil
  then show ?case by simp
next
  case (Cons i "is")
  from Cons.prems obtain s1 where
    u: "update_service s t i (if sv ! i then present else absent) = Inr s1"
    and r: "update_services t sv is s1 = Inr s'"
    by (auto simp: Let_def split: sum.splits)
  from update_service_flags [OF u] Cons.IH [OF r] show ?case by simp
qed

lemma set_compromised_reachable:
  "set_compromised s m = Inr s' \<Longrightarrow> reachable s' x = reachable s x"
  by (auto elim!: set_compromised_Inr simp: reachable_def)

lemma update_state_exploit_reachable:
  assumes "update_state env s a True sv = Inr s'" and "\<not> is_scan a"
  shows "reachable s' x =
           (case reachable s x of
              Inl e \<Rightarrow> Inl e
            | Inr r \<Rightarrow> Inr (r \<or> (x \<in> set (address_space env) \<and>
                 subnets_connected (network env) (fst (target a)) (fst x) = Inr True)))"
    and "x \<in> set (address_space env) \<Longrightarrow> \<exists>r. reachable s x = Inr r"
proof -
  from assms obtain s1 s2 where
    s1: "update_services (target a) sv [0..<length sv] s = Inr s1"
    and s2: "set_compromised s1 (target a) = Inr s2"
    and s3: "update_reachable_loop (network env) (fst (target a)) (address_space env) s2 = Inr s'"
    by (auto simp: update_state_def update_reachable_def split: sum.splits)
  have eq: "reachable s2 x = reachable s x"
    using update_services_flags [OF s1, of x] set_compromised_reachable [OF s2, of x] by simp
  from update_reachable_loop_conv [OF s3, of x]
  have "reachable s' x =
           (case reachable s2 x of
              Inl e \<Rightarrow> Inl e
            | Inr r \<Rightarrow> Inr (r \<or> (x \<in> set (address_space env) \<and>
                 subnets_connected (network env) (fst (target a)) (fst x) = Inr True)))"
    by (auto simp: reachable_def split: option.splits)
  with eq show "reachable s' x =
           (case reachable s x of
              Inl e \<Rightarrow> Inl e
            | Inr r \<Rightarrow> Inr (r \<or> (x \<in> set (address_space env) \<and>
                 subnets_connected (network env) (fst (target a)) (fst x) = Inr True)))"
    by simp
  assume "x \<in> set (address_space env)"
  from update_reachable_loop_keys [OF s3 this] have "\<exists>r. reachable s2 x = Inr r"
    by (auto simp: reachable_def split: option.splits)
  with eq show "\<exists>r. reachable s x = Inr r" by simp
qed

lemma is_goal_mono:
  assumes "is_goal env s = Inr True" and "state_le s s'" and "is_goal env s' = Inr b"
  shows "b"
  using is_goal_iff [OF assms(1)] is_goal_iff [OF assms(3)] assms(2)
  by (auto intro: state_le_compromised)

lemma is_goal_loop_cong:
  "(\<And>x. compromised s' x = compromised s x) \<Longrightarrow> is_goal_loop s' ms = is_goal_loop s ms"
  by (induction ms) (simp_all split: sum.splits)

lemma perform_action_scan:
  assumes "perform_action n a u = Inr (success, val, sv)" and "is_scan a"
  shows "success \<and> val = 0 \<and> (\<exists>m. map_of (machines n) (target a) = Some m \<and> sv = m_services m)"
  using assms by (auto simp: perform_action_def split: option.splits)

lemma update_state_scan:
  "is_scan a \<Longrightarrow>
   update_state env s a success sv = update_services (target a) sv [0..<length sv] s"
  by (auto simp: update_state_def split: sum.splits)

lemma update_services_all:
  assumes "update_services t sv [0..<length sv] s = Inr s'"
    and "map_of s t = Some (c, r, info)" and "length info = length sv"
  shows "map_of s' t = Some (c, r, map (\<lambda>b. if b then present else absent) sv)"
proof -
  from update_services_target [OF assms(1,2)] obtain info' where
    m: "map_of s' t = Some (c, r, info')" and l: "length info' = length info"
    and v: "\<forall>i < length info. info' ! i =
        (if i \<in> set [0..<length sv] then (if sv ! i then present else absent) else info ! i)"
    by blast
  have "info' = map (\<lambda>b. if b then present else absent) sv"
  proof (rule nth_equalityI)
    show "length info' = length (map (\<lambda>b. if b then present else absent) sv)"
      using l assms(3) by simp
  next
    fix i
    assume "i < length info'"
    with l assms(3) v show "info' ! i = map (\<lambda>b. if b then present else absent) sv ! i"
      by simp
  qed
  with m show ?thesis by simp
qed

lemma reset_obs_conv:
  "reset_obs n k ms obs0 = Inr obs \<Longrightarrow>
   map_of obs x =
     (if x \<in> set ms then Some (False, exposed n (fst x), replicate k unknown)
      else map_of obs0 x)"
proof (induction ms arbitrary: obs0)
  case Nil
  then show ?case by simp
next
  case (Cons m ms)
  let ?v = "(False, exposed n (fst m), replicate k unknown)"
  from Cons.prems have ex: "subnet_exposed n (fst m) = Inr (exposed n (fst m))"
    and rest: "reset_obs n k ms (AList.update m ?v obs0) = Inr obs"
    by (auto simp: Let_def subnet_exposed_def split: sum.splits if_splits)
  from Cons.IH [OF rest] show ?case
    by (auto simp: update_conv')
qed

lemma reset_obs_in_range:
  "reset_obs n k ms obs0 = Inr obs \<Longrightarrow> m \<in> set ms \<Longrightarrow> fst m < num_subnets n"
  by (induction ms arbitrary: obs0)
    (auto simp: Let_def subnet_exposed_def split: sum.splits if_splits)

lemma reset_obs_total:
  "\<forall>m \<in> set ms. fst m < num_subnets n \<Longrightarrow> \<exists>obs. reset_obs n k ms obs0 = Inr obs"
  by (induction ms arbitrary: obs0) (auto simp: Let_def subnet_exposed_def)

lemma reset_ok:
  assumes "reset env st = Inr (obs, env', st')"
  shows "state_ok env' (st' ! current_state env') \<and> current_state env' < length st' \<and>
         (wf_env env \<longrightarrow> wf_env env')"
proof -
  from assms obtain s where
    s: "reset_obs (network env) (num_services env) (address_space env) [] = Inr s"
    and e: "env' = env\<lparr>current_state := length st, reset_count := reset_count env + 1\<rparr>"
    and st': "st' = st @ [s] @ [s]"
    by (auto simp: reset_def alloc_def copy_state_def split: sum.splits)
  have "state_ok env' s"
    unfolding state_ok_def list_all_iff e
    by (auto simp: reset_obs_conv [OF s])
  moreover from e st' have "st' ! current_state env' = s" "current_state env' < length st'"
    by (simp_all add: nth_append)
  moreover from e have "wf_env env \<longrightarrow> wf_env env'"
    by (simp add: wf_env_def)
  ultimately show ?thesis by simp
qed

lemma wf_env_in_range:
  assumes "wf_env env" and "m \<in> set (address_space env)"
  shows "fst m < num_subnets (network env)"
  using wf_env_address [OF assms] wf_env_machine [OF assms(1)] by blast

lemma perform_action_miss:
  assumes "map_of (machines n) (target a) = Some m" and "\<not> is_scan a"
    and "service a = Some i" and "i < length (m_services m)" and "\<not> u < prob a"
  shows "perform_action n a u = Inr (False, 0, [])"
  using assms by (simp add: perform_action_def)

text \<open>The else-branch of \<^verbatim>\<open>_update_state\<close> on an exploit that misses a vulnerable
  service: the belief about the attacked service is overwritten with absent.\<close>

lemma step_missed_exploit:
  assumes "step env st a u = Inr ((obs, rew, done), st')"
    and "current_state env < length st"
    and "reachable (st ! current_state env) (target a) = Inr True"
    and "\<not> is_scan a"
    and "map_of (machines (network env)) (target a) = Some m"
    and "service a = Some i" and "i < length (m_services m)" and "m_services m ! i"
    and "\<not> u < prob a"
  shows "\<exists>c r info.
           map_of (st ! current_state env) (target a) = Some (c, r, info) \<and>
           i < length info \<and>
           map_of (st' ! obs) = (map_of (st ! current_state env))
             (target a \<mapsto> (c, r, info[i := absent])) \<and>
           st' ! current_state env = st' ! obs"
  using assms(1,3,2)
proof (rule step_reachable)
  fix success val sv c0 s1
  assume pa: "perform_action (network env) a u = Inr (success, val, sv)"
    and us: "update_state env (st ! current_state env) a success sv = Inr s1"
    and obs: "obs = length st"
    and st': "st' = st[current_state env := s1] @ [s1]"
  from pa perform_action_miss [OF assms(5,4,6,7,9)] have "\<not> success" by simp
  with us assms(4,6) have "update_service (st ! current_state env) (target a) i absent = Inr s1"
    by (simp add: update_state_def)
  then obtain c r info where
    "map_of (st ! current_state env) (target a) = Some (c, r, info)" "i < length info"
    "map_of s1 = (map_of (st ! current_state env))(target a \<mapsto> (c, r, info[i := absent]))"
    by (rule update_service_Inr)
  moreover from st' obs assms(2) have "st' ! current_state env = s1" "st' ! obs = s1"
    by (simp_all add: nth_append)
  ultimately show ?thesis by auto
qed

section \<open>The concrete network, step by step\<close>

lemmas example_defs = example_network_def example_env_init_def example_env_def
  example_state0_def example_state1_def example_state2_def example_state3_def
  example_state4_def example_state_scan_def example_state_miss_def
  example_state_scan_miss_def
  exploit_action_def scan_action_def risky_exploit_def

lemmas operation_defs = step_def reset_def update_state_def update_reachable_def is_goal_def
  perform_action_def subnet_exposed_def subnets_connected_def get_sensitive_machines_def
  get_address_space_def compromised_def reachable_def service_state_def update_service_def
  set_compromised_def set_reachable_def alloc_def copy_state_def is_scan_def
  upt_rec numeral_2_eq_2

lemma reset_example:
  "reset example_env_init [] = Inr (1, example_env, [example_state0, example_state0])"
  by (simp add: example_defs operation_defs)

lemma step_example_0:
  "step example_env [example_state0] (exploit_action (0, 0) 0) 0
     = Inr ((1, - 1, False), [example_state1, example_state1])"
  by (simp add: example_defs operation_defs)

lemma step_example_1:
  "step example_env [example_state1, example_state1] (exploit_action (1, 0) 0) 0
     = Inr ((2, 999, False), [example_state2, example_state1, example_state2])"
  by (simp add: example_defs operation_defs)

lemma step_example_2:
  "step example_env [example_state2, example_state1, example_state2] (exploit_action (1, 0) 1) 0
     = Inr ((3, - 1, False), [example_state2, example_state1, example_state2, example_state2])"
  by (simp add: example_defs operation_defs)

lemma step_example_3:
  "step example_env [example_state2, example_state1, example_state2, example_state2]
     (exploit_action (2, 0) 1) 0
     = Inr ((4, 999, True),
         [example_state3, example_state1, example_state2, example_state2, example_state3])"
  by (simp add: example_defs operation_defs)

lemma episode_example:
  "episode example_env [example_state0]
     [(exploit_action (0, 0) 0, 0), (exploit_action (1, 0) 0, 0),
      (exploit_action (1, 0) 1, 0), (exploit_action (2, 0) 1, 0)]
   = Inr ([(1, - 1, False), (2, 999, False), (3, - 1, False), (4, 999, True)],
       [example_state3, example_state1, example_state2, example_state2, example_state3])"
  by (simp only: episode.simps step_example_0 step_example_1 step_example_2 step_example_3
      sum.case prod.case)

lemma step_example_4:
  "step example_env [example_state3] (exploit_action (3, 0) 0) 0
     = Inr ((1, - 1, True), [example_state4, example_state4])"
  by (simp add: example_defs operation_defs)

lemma step_example_scan:
  "step example_env [example_state0] (scan_action (0, 0)) 0
     = Inr ((1, - 1, False), [example_state_scan, example_state_scan])"
  by (simp add: example_defs operation_defs)

lemma step_example_miss:
  "step example_env [example_state0] (risky_exploit (0, 0) 0) (7 / 10)
     = Inr ((1, - 1, False), [example_state_miss, example_state_miss])"
  by (simp add: example_defs operation_defs)

lemma step_example_scan_miss:
  "step example_env [example_state_scan, example_state_scan] (risky_exploit (0, 0) 0) (7 / 10)
     = Inr ((2, - 1, False),
         [example_state_scan_miss, example_state_scan, example_state_scan_miss])"
  by (simp add: example_defs operation_defs)

lemma step_example_unreachable:
  "step example_env [example_state0, example_state0] (scan_action (1, 0)) 0
     = Inr ((0, - 1, False), [example_state0, example_state0])"
  by (simp add: example_defs operation_defs)

lemma step_example_after:
  "step example_env [example_state0, example_state0] (exploit_action (0, 0) 0) 0
     = Inr ((2, - 1, False), [example_state1, example_state0, example_state1])"
  by (simp add: example_defs operation_defs)

lemma wf_example_init: "wf_env example_env_init"
  by (simp add: example_defs wf_env_def get_address_space_def)

lemma ok_example3: "state_ok example_env example_state3"
  by (simp add: example_defs state_ok_def)

lemma wf_example: "wf_env example_env"
  by (simp add: example_defs wf_env_def get_address_space_def)

lemma ok_example: "state_ok example_env example_state0"
  by (simp add: example_defs state_ok_def)

section \<open>Properties of the episode controller\<close>

text \<open>
  Claim C4. A step whose target is already marked compromised returns the reward
  \<open>- cost\<close>, whatever the action and the configured reward of the machine; and within an
  episode the value of a machine is paid at most once: when a step on a target returned
  more or less than \<open>- cost\<close>, every later step on the same target returns exactly
  \<open>- cost\<close>.
\<close>

theorem reward_granted_once:
  assumes "episode env st acts = Inr (results, st')"
    and "current_state env < length st"
  shows "length results = length acts \<and>
         (\<forall>i < length acts.
            compromised (st ! current_state env) (target (fst (acts ! i))) = Inr True \<longrightarrow>
            fst (snd (results ! i)) = - cost (fst (acts ! i))) \<and>
         (\<forall>i j. i < j \<and> j < length acts \<and> target (fst (acts ! j)) = target (fst (acts ! i)) \<and>
            fst (snd (results ! i)) \<noteq> - cost (fst (acts ! i)) \<longrightarrow>
            fst (snd (results ! j)) = - cost (fst (acts ! j)))"
proof (intro conjI allI impI)
  from assms(1) show "length results = length acts"
    by (rule episode_length)
next
  fix i
  assume "i < length acts"
    and "compromised (st ! current_state env) (target (fst (acts ! i))) = Inr True"
  with assms show "fst (snd (results ! i)) = - cost (fst (acts ! i))"
    by (simp add: episode_compromised_reward)
next
  fix i j
  assume h: "i < j \<and> j < length acts \<and> target (fst (acts ! j)) = target (fst (acts ! i)) \<and>
            fst (snd (results ! i)) \<noteq> - cost (fst (acts ! i))"
  from assms h show "fst (snd (results ! j)) = - cost (fst (acts ! j))"
  proof (induction acts arbitrary: st results i j)
    case Nil
    then show ?case by simp
  next
    case (Cons p acts)
    obtain a u where p: "p = (a, u)" by (cases p) auto
    from Cons.prems(1) [unfolded p] obtain res st1 ress where
      s: "step env st a u = Inr (res, st1)" and e: "episode env st1 acts = Inr (ress, st')"
      and r: "results = res # ress"
      by (auto split: sum.splits prod.splits)
    obtain obs rew dn where res: "res = (obs, rew, dn)" by (cases res) auto
    from step_le [OF s Cons.prems(2)] have lt1: "current_state env < length st1" by simp
    from Cons.prems(3) obtain j' where j: "j = Suc j'" by (cases j) auto
    show ?case
    proof (cases i)
      case 0
      with Cons.prems(3) r res p have "rew \<noteq> - cost a" by simp
      from step_value_compromises [OF s [unfolded res] Cons.prems(2) this]
      have "compromised (st1 ! current_state env) (target a) = Inr True" .
      from episode_compromised_reward [OF e lt1 this, of j'] Cons.prems(3) 0 j p r
      show ?thesis by simp
    next
      case (Suc i')
      from Cons.IH [OF e lt1, of i' j'] Cons.prems(3) Suc j r show ?thesis by simp
    qed
  qed
qed

theorem reward_granted_once_witness:
  "current_state example_env < length [example_state0] \<and>
   fst (snd ([(1, - 1, False), (2, 999, False), (3, - 1, False), (4::nat, 999::real, True)] ! 1))
     \<noteq> - cost (exploit_action (1, 0) 0) \<and>
   fst (snd ([(1, - 1, False), (2, 999, False), (3, - 1, False), (4::nat, 999::real, True)] ! 2))
     = - cost (exploit_action (1, 0) 1)"
proof -
  have h: "current_state example_env < length [example_state0]"
    by (simp add: example_defs)
  from reward_granted_once
    [OF episode_example h, THEN conjunct2, THEN conjunct2, rule_format, of 1 2] h
  show ?thesis
    by (simp add: exploit_action_def)
qed

text \<open>
  Claim C5. After a step with a successful exploit on a reachable machine of subnet
  \<open>A\<close>, every address of the address space whose subnet is connected to \<open>A\<close> is
  reachable in the returned observation, and the reachable flag of every address whose
  subnet is not connected to \<open>A\<close> is the one it had before the step.
\<close>

theorem reachability_propagation:
  assumes "step env st a u = Inr ((obs, rew, done), st')"
    and "current_state env < length st"
    and "reachable (st ! current_state env) (target a) = Inr True"
    and "\<not> is_scan a"
    and "perform_action (network env) a u = Inr (True, val, sv)"
  shows "(\<forall>m \<in> set (address_space env).
            subnets_connected (network env) (fst (target a)) (fst m) = Inr True \<longrightarrow>
            reachable (st' ! obs) m = Inr True) \<and>
         (\<forall>m. subnets_connected (network env) (fst (target a)) (fst m) \<noteq> Inr True \<longrightarrow>
            reachable (st' ! obs) m = reachable (st ! current_state env) m)"
  using assms(1,3,2)
proof (rule step_reachable)
  fix success val' sv' c s1
  assume "perform_action (network env) a u = Inr (success, val', sv')"
    and us: "update_state env (st ! current_state env) a success sv' = Inr s1"
    and "obs = length st" and "st' = st[current_state env := s1] @ [s1]"
  with assms(5) have s: "success" and o: "st' ! obs = s1"
    by (simp_all add: nth_append)
  note r = update_state_exploit_reachable [OF us [unfolded s eqTrueI [OF s]] assms(4)]
  show ?thesis
  proof (intro conjI ballI allI impI)
    fix m
    assume "m \<in> set (address_space env)"
      and "subnets_connected (network env) (fst (target a)) (fst m) = Inr True"
    with r(1) [of m] r(2) [of m] o show "reachable (st' ! obs) m = Inr True"
      by auto
  next
    fix m :: address
    assume "subnets_connected (network env) (fst (target a)) (fst m) \<noteq> Inr True"
    with r(1) [of m] o show "reachable (st' ! obs) m = reachable (st ! current_state env) m"
      by (auto split: sum.splits)
  qed
qed

theorem reachability_propagation_witness:
  "step example_env [example_state0] (exploit_action (0, 0) 0) 0
     = Inr ((1, - 1, False), [example_state1, example_state1]) \<and>
   current_state example_env < length [example_state0] \<and>
   reachable ([example_state0] ! current_state example_env)
     (target (exploit_action (0, 0) 0)) = Inr True \<and>
   \<not> is_scan (exploit_action (0, 0) 0) \<and>
   perform_action (network example_env) (exploit_action (0, 0) 0) 0
     = Inr (True, 0, [True, False]) \<and>
   reachable ([example_state1, example_state1] ! 1) (2, 0) = Inr True \<and>
   reachable ([example_state1, example_state1] ! 1) (3, 0) = Inr False"
proof -
  have h2: "current_state example_env < length [example_state0]"
    by (simp add: example_defs)
  have h3: "reachable ([example_state0] ! current_state example_env)
      (target (exploit_action (0, 0) 0)) = Inr True"
    by (simp add: example_defs reachable_def)
  have h4: "\<not> is_scan (exploit_action (0, 0) 0)"
    by (simp add: example_defs is_scan_def)
  have h5: "perform_action (network example_env) (exploit_action (0, 0) 0) 0
      = Inr (True, 0, [True, False])"
    by (simp add: example_defs perform_action_def is_scan_def)
  note r = reachability_propagation [OF step_example_0 h2 h3 h4 h5]
  from r [THEN conjunct1, rule_format, of "(2, 0)"]
  have a: "reachable ([example_state1, example_state1] ! 1) (2, 0) = Inr True"
    by (simp add: example_defs subnets_connected_def)
  from r [THEN conjunct2, rule_format, of "(3, 0)"]
  have b: "reachable ([example_state1, example_state1] ! 1) (3, 0) = Inr False"
    by (simp add: example_defs subnets_connected_def reachable_def)
  from step_example_0 h2 h3 h4 h5 a b show ?thesis by simp
qed

text \<open>
  Claim C2. For a step taken while the episode is in progress (the goal test fails on
  the observation before the step), the returned flag \<open>done\<close> is true exactly when every
  sensitive machine of the network is marked compromised in the returned observation,
  which has the contents of the controller's observation after the update.
\<close>

theorem done_iff_goal:
  assumes "step env st a u = Inr ((obs, rew, done), st')"
    and "current_state env < length st"
    and "is_goal env (st ! current_state env) = Inr False"
  shows "done = (\<forall>m \<in> set (get_sensitive_machines (network env)).
                   compromised (st' ! obs) m = Inr True) \<and>
         st' ! obs = st' ! current_state env"
  using assms(1)
proof (cases rule: step_cases)
  case unreachable
  from step_unreachable [OF this, of u] assms(1)
  have "obs = current_state env" "st' = st" "\<not> done" by simp_all
  with is_goal_iff [OF assms(3)] show ?thesis by simp
next
  case reachable
  from assms(1) reachable assms(2) show ?thesis
  proof (rule step_reachable)
    fix success val sv c s1
    assume "is_goal env s1 = Inr done" and "obs = length st"
      and "st' = st[current_state env := s1] @ [s1]"
    with is_goal_iff [of env s1 "done"] assms(2) show ?thesis
      by (simp add: nth_append)
  qed
qed

theorem done_iff_goal_witness:
  "step example_env [example_state2, example_state1, example_state2, example_state2]
     (exploit_action (2, 0) 1) 0
     = Inr ((4, 999, True),
         [example_state3, example_state1, example_state2, example_state2, example_state3]) \<and>
   current_state example_env
     < length [example_state2, example_state1, example_state2, example_state2] \<and>
   is_goal example_env
     ([example_state2, example_state1, example_state2, example_state2]
        ! current_state example_env) = Inr False \<and>
   compromised
     ([example_state3, example_state1, example_state2, example_state2, example_state3] ! 4)
     (1, 0) = Inr True \<and>
   compromised
     ([example_state3, example_state1, example_state2, example_state2, example_state3] ! 4)
     (2, 0) = Inr True"
proof -
  have h2: "current_state example_env
      < length [example_state2, example_state1, example_state2, example_state2]"
    by (simp add: example_defs)
  have h3: "is_goal example_env
      ([example_state2, example_state1, example_state2, example_state2]
         ! current_state example_env) = Inr False"
    by (simp add: example_defs is_goal_def get_sensitive_machines_def compromised_def)
  have s: "set (get_sensitive_machines (network example_env)) = {(1, 0), (2, 0)}"
    by (auto simp: example_defs get_sensitive_machines_def)
  from done_iff_goal [OF step_example_3 h2 h3, THEN conjunct1] s
  have "compromised
      ([example_state3, example_state1, example_state2, example_state2, example_state3] ! 4)
      (1, 0) = Inr True \<and>
    compromised
      ([example_state3, example_state1, example_state2, example_state2, example_state3] ! 4)
      (2, 0) = Inr True"
    by simp
  with step_example_3 h2 h3 show ?thesis by simp
qed

text \<open>
  Claim C8. Within an episode, that is across any sequence of \<open>step\<close> calls that starts
  from a store in which the environment's observation is allocated, a reachable flag
  or a compromised flag that is true in the observation stays true.
\<close>

theorem flags_monotone:
  assumes "episode env st acts = Inr (results, st')"
    and "current_state env < length st"
  shows "(reachable (st ! current_state env) m = Inr True \<longrightarrow>
            reachable (st' ! current_state env) m = Inr True) \<and>
         (compromised (st ! current_state env) m = Inr True \<longrightarrow>
            compromised (st' ! current_state env) m = Inr True)"
proof -
  from episode_le [OF assms]
  have "state_le (st ! current_state env) (st' ! current_state env)" by simp
  then show ?thesis
    by (blast intro: state_le_reachable state_le_compromised)
qed

theorem flags_monotone_witness:
  "episode example_env [example_state2, example_state1, example_state2, example_state2]
     [(exploit_action (2, 0) 1, 0)]
     = Inr ([(4, 999, True)],
         [example_state3, example_state1, example_state2, example_state2, example_state3]) \<and>
   current_state example_env
     < length [example_state2, example_state1, example_state2, example_state2] \<and>
   reachable ([example_state2, example_state1, example_state2, example_state2]
     ! current_state example_env) (0, 0) = Inr True \<and>
   compromised ([example_state2, example_state1, example_state2, example_state2]
     ! current_state example_env) (0, 0) = Inr True \<and>
   reachable ([example_state3, example_state1, example_state2, example_state2, example_state3]
     ! current_state example_env) (0, 0) = Inr True \<and>
   compromised ([example_state3, example_state1, example_state2, example_state2, example_state3]
     ! current_state example_env) (0, 0) = Inr True"
proof -
  have e: "episode example_env [example_state2, example_state1, example_state2, example_state2]
     [(exploit_action (2, 0) 1, 0)]
     = Inr ([(4, 999, True)],
         [example_state3, example_state1, example_state2, example_state2, example_state3])"
    by (simp only: episode.simps step_example_3 sum.case prod.case)
  have h: "current_state example_env
     < length [example_state2, example_state1, example_state2, example_state2]"
    by (simp add: example_defs)
  have r: "reachable ([example_state2, example_state1, example_state2, example_state2]
     ! current_state example_env) (0, 0) = Inr True"
    and c: "compromised ([example_state2, example_state1, example_state2, example_state2]
     ! current_state example_env) (0, 0) = Inr True"
    by (simp_all add: example_defs reachable_def compromised_def)
  from flags_monotone [OF e h, of "(0, 0)"] r c e h show ?thesis by simp
qed

text \<open>
  Claim C10. Once the goal is reached, a step on a reachable target is not rejected:
  for a well-formed environment and an action of its action space the call returns, it
  resolves the action against the network and applies the update rules as in any other
  step, and it returns \<open>done = True\<close>.
\<close>

theorem step_after_goal:
  assumes "wf_env env" and "current_state env < length st"
    and "state_ok env (st ! current_state env)" and "valid_action env a"
    and "is_goal env (st ! current_state env) = Inr True"
    and "reachable (st ! current_state env) (target a) = Inr True"
  shows "\<exists>obs rew st' success val sv c s1.
           step env st a u = Inr ((obs, rew, True), st') \<and>
           perform_action (network env) a u = Inr (success, val, sv) \<and>
           compromised (st ! current_state env) (target a) = Inr c \<and>
           update_state env (st ! current_state env) a success sv = Inr s1 \<and>
           rew = (if c then 0 else val) - cost a \<and>
           st' ! current_state env = s1 \<and> st' ! obs = s1"
proof -
  from step_total [OF assms(1,3,4)] obtain res st' where
    "step env st a u = Inr (res, st')"
    by blast
  then obtain obs rew dn where s: "step env st a u = Inr ((obs, rew, dn), st')"
    by (cases res) auto
  from s assms(6,2) show ?thesis
  proof (rule step_reachable)
    fix success val sv c s1
    assume pa: "perform_action (network env) a u = Inr (success, val, sv)"
      and c: "compromised (st ! current_state env) (target a) = Inr c"
      and us: "update_state env (st ! current_state env) a success sv = Inr s1"
      and g: "is_goal env s1 = Inr dn"
      and rew: "rew = (if c then 0 else val) - cost a"
      and obs: "obs = length st"
      and st': "st' = st[current_state env := s1] @ [s1]"
    from is_goal_mono [OF assms(5) update_state_le [OF us] g] have "dn" .
    moreover from st' obs assms(2) have "st' ! current_state env = s1" "st' ! obs = s1"
      by (simp_all add: nth_append)
    ultimately show ?thesis
      using s pa c us rew by auto
  qed
qed

theorem step_after_goal_witness:
  "wf_env example_env \<and> current_state example_env < length [example_state3] \<and>
   state_ok example_env ([example_state3] ! current_state example_env) \<and>
   valid_action example_env (exploit_action (3, 0) 0) \<and>
   is_goal example_env ([example_state3] ! current_state example_env) = Inr True \<and>
   reachable ([example_state3] ! current_state example_env)
     (target (exploit_action (3, 0) 0)) = Inr True \<and>
   (\<exists>obs rew st'.
      step example_env [example_state3] (exploit_action (3, 0) 0) 0
        = Inr ((obs, rew, True), st')) \<and>
   step example_env [example_state3] (exploit_action (3, 0) 0) 0
     = Inr ((1, - 1, True), [example_state4, example_state4])"
proof -
  have h2: "current_state example_env < length [example_state3]"
    by (simp add: example_defs)
  have h3: "state_ok example_env ([example_state3] ! current_state example_env)"
    using ok_example3 by (simp add: example_env_def example_env_init_def)
  have h4: "valid_action example_env (exploit_action (3, 0) 0)"
    by (simp add: example_defs valid_action_def)
  have h5: "is_goal example_env ([example_state3] ! current_state example_env) = Inr True"
    by (simp add: example_defs is_goal_def get_sensitive_machines_def compromised_def)
  have h6: "reachable ([example_state3] ! current_state example_env)
     (target (exploit_action (3, 0) 0)) = Inr True"
    by (simp add: example_defs reachable_def)
  from step_after_goal [OF wf_example h2 h3 h4 h5 h6, of 0]
  have "\<exists>obs rew st'.
      step example_env [example_state3] (exploit_action (3, 0) 0) 0
        = Inr ((obs, rew, True), st')"
    by blast
  with wf_example h2 h3 h4 h5 h6 step_example_4 show ?thesis by simp
qed

text \<open>
  Claim C7. A scan of a reachable target, taken while the episode is in progress in a
  well-formed environment, returns the reward \<open>0 - cost\<close> and \<open>done = False\<close>, and in
  the returned observation the belief vector of the target is the ground-truth
  vulnerability vector of the machine: present where it is true, absent where false.
\<close>

theorem scan_reveals_ground_truth:
  assumes "wf_env env" and "current_state env < length st"
    and "state_ok env (st ! current_state env)" and "valid_action env a"
    and "is_scan a"
    and "reachable (st ! current_state env) (target a) = Inr True"
    and "is_goal env (st ! current_state env) = Inr False"
  shows "\<exists>obs st' m c r.
           step env st a u = Inr ((obs, 0 - cost a, False), st') \<and>
           map_of (machines (network env)) (target a) = Some m \<and>
           map_of (st' ! obs) (target a)
             = Some (c, r, map (\<lambda>b. if b then present else absent) (m_services m)) \<and>
           st' ! current_state env = st' ! obs"
proof -
  let ?s = "st ! current_state env"
  from step_total [OF assms(1,3,4)] obtain res st' where
    "step env st a u = Inr (res, st')"
    by blast
  then obtain obs rew dn where s: "step env st a u = Inr ((obs, rew, dn), st')"
    by (cases res) auto
  from s assms(6,2) show ?thesis
  proof (rule step_reachable)
    fix success val sv c0 s1
    assume pa: "perform_action (network env) a u = Inr (success, val, sv)"
      and us: "update_state env ?s a success sv = Inr s1"
      and g: "is_goal env s1 = Inr dn"
      and rew: "rew = (if c0 then 0 else val) - cost a"
      and obs: "obs = length st"
      and st': "st' = st[current_state env := s1] @ [s1]"
    from perform_action_scan [OF pa assms(5)] obtain m where
      val: "val = 0" and m: "map_of (machines (network env)) (target a) = Some m"
      and sv: "sv = m_services m"
      by blast
    from us assms(5) have u1: "update_services (target a) sv [0..<length sv] ?s = Inr s1"
      by (simp add: update_state_scan)
    from wf_env_machine [OF assms(1) m] have t: "target a \<in> set (address_space env)"
      and lsv: "length sv = num_services env"
      by (simp_all add: sv)
    from state_ok_key [OF assms(3) t] obtain c r info where
      k: "map_of ?s (target a) = Some (c, r, info)" and li: "length info = num_services env"
      by blast
    from update_services_all [OF u1 k] li lsv
    have b: "map_of s1 (target a)
        = Some (c, r, map (\<lambda>b. if b then present else absent) (m_services m))"
      by (simp add: sv)
    have "is_goal env s1 = is_goal env ?s"
      unfolding is_goal_def
      by (rule is_goal_loop_cong) (simp add: update_services_flags [OF u1])
    with g assms(7) have dn: "\<not> dn" by simp
    from st' obs assms(2) have o: "st' ! current_state env = s1" "st' ! obs = s1"
      by (simp_all add: nth_append)
    from rew val have "rew = 0 - cost a" by simp
    with s dn m b o show ?thesis by auto
  qed
qed

theorem scan_reveals_ground_truth_witness:
  "wf_env example_env \<and> current_state example_env < length [example_state0] \<and>
   state_ok example_env ([example_state0] ! current_state example_env) \<and>
   valid_action example_env (scan_action (0, 0)) \<and> is_scan (scan_action (0, 0)) \<and>
   reachable ([example_state0] ! current_state example_env) (target (scan_action (0, 0)))
     = Inr True \<and>
   is_goal example_env ([example_state0] ! current_state example_env) = Inr False \<and>
   (\<exists>c r. map_of ([example_state_scan, example_state_scan] ! 1) (0, 0)
      = Some (c, r, [present, absent]))"
proof -
  have h2: "current_state example_env < length [example_state0]"
    by (simp add: example_defs)
  have h3: "state_ok example_env ([example_state0] ! current_state example_env)"
    using ok_example by (simp add: example_env_def example_env_init_def)
  have h4: "valid_action example_env (scan_action (0, 0))"
    by (simp add: example_defs valid_action_def is_scan_def)
  have h5: "is_scan (scan_action (0, 0))"
    by (simp add: scan_action_def is_scan_def)
  have h6: "reachable ([example_state0] ! current_state example_env)
      (target (scan_action (0, 0))) = Inr True"
    by (simp add: example_defs reachable_def)
  have h7: "is_goal example_env ([example_state0] ! current_state example_env) = Inr False"
    by (simp add: example_defs is_goal_def get_sensitive_machines_def compromised_def)
  have m: "map_of (machines (network example_env)) (target (scan_action (0, 0)))
      = Some \<lparr>m_services = [True, False], m_value = 0\<rparr>"
    by (simp add: example_defs)
  from scan_reveals_ground_truth [OF wf_example h2 h3 h4 h5 h6 h7, of 0]
  have "\<exists>c r. map_of ([example_state_scan, example_state_scan] ! 1) (0, 0)
      = Some (c, r, [present, absent])"
    unfolding step_example_scan m by (auto simp: scan_action_def)
  with wf_example h2 h3 h4 h5 h6 h7 show ?thesis by simp
qed

text \<open>
  Claim C6. In a well-formed environment every call to \<open>reset\<close> returns, and it returns
  a fresh copy of the new observation in which every address of the address space is
  not compromised, is reachable exactly when its subnet is exposed, and has one belief
  per service, each of them unknown.
\<close>

theorem reset_observation:
  assumes "wf_env env"
  shows "\<exists>obs env' st'.
           reset env st = Inr (obs, env', st') \<and>
           obs \<noteq> current_state env' \<and> st' ! obs = st' ! current_state env' \<and>
           (\<forall>m \<in> set (address_space env).
              subnet_exposed (network env) (fst m) = Inr (exposed (network env) (fst m)) \<and>
              map_of (st' ! obs) m
                = Some (False, exposed (network env) (fst m),
                    replicate (num_services env) unknown))"
proof -
  from wf_env_in_range [OF assms]
  have "\<forall>m \<in> set (address_space env). fst m < num_subnets (network env)" by blast
  from reset_obs_total [OF this] obtain s where
    s: "reset_obs (network env) (num_services env) (address_space env) [] = Inr s"
    by blast
  let ?env' = "env\<lparr>current_state := length st, reset_count := reset_count env + 1\<rparr>"
  let ?st' = "st @ [s] @ [s]"
  from s have r: "reset env st = Inr (Suc (length st), ?env', ?st')"
    by (simp add: reset_def alloc_def copy_state_def)
  have "\<forall>m \<in> set (address_space env).
              subnet_exposed (network env) (fst m) = Inr (exposed (network env) (fst m)) \<and>
              map_of (?st' ! Suc (length st)) m
                = Some (False, exposed (network env) (fst m),
                    replicate (num_services env) unknown)"
  proof
    fix m
    assume m: "m \<in> set (address_space env)"
    from reset_obs_in_range [OF s m]
    have "subnet_exposed (network env) (fst m) = Inr (exposed (network env) (fst m))"
      by (simp add: subnet_exposed_def)
    moreover from reset_obs_conv [OF s, of m] m
    have "map_of (?st' ! Suc (length st)) m
                = Some (False, exposed (network env) (fst m),
                    replicate (num_services env) unknown)"
      by (simp add: nth_append)
    ultimately show "subnet_exposed (network env) (fst m) = Inr (exposed (network env) (fst m)) \<and>
              map_of (?st' ! Suc (length st)) m
                = Some (False, exposed (network env) (fst m),
                    replicate (num_services env) unknown)" ..
  qed
  moreover have "Suc (length st) \<noteq> current_state ?env'" by simp
  moreover have "?st' ! Suc (length st) = ?st' ! current_state ?env'"
    by (simp add: nth_append)
  ultimately show ?thesis using r by blast
qed

theorem reset_observation_witness:
  "wf_env example_env_init \<and>
   reset example_env_init [] = Inr (1, example_env, [example_state0, example_state0]) \<and>
   map_of ([example_state0, example_state0] ! 1) (0, 0)
     = Some (False, True, [unknown, unknown]) \<and>
   map_of ([example_state0, example_state0] ! 1) (2, 0)
     = Some (False, False, [unknown, unknown])"
proof -
  from reset_observation [OF wf_example_init, of "[]"]
  have "\<forall>m \<in> set (address_space example_env_init).
      map_of ([example_state0, example_state0] ! 1) m
        = Some (False, exposed (network example_env_init) (fst m),
            replicate (num_services example_env_init) unknown)"
    unfolding reset_example by auto
  then have "map_of ([example_state0, example_state0] ! 1) (0, 0)
      = Some (False, True, [unknown, unknown]) \<and>
    map_of ([example_state0, example_state0] ! 1) (2, 0)
      = Some (False, False, [unknown, unknown])"
    by (simp add: example_network_def example_env_init_def numeral_2_eq_2)
  with wf_example_init reset_example show ?thesis by simp
qed

text \<open>
  Claim C3 fails on the code. In the concrete network the machine \<open>(0, 0)\<close> is
  vulnerable to service 0. An exploit of that service with success probability one half
  and the sample \<open>7 / 10\<close> misses; the step does not leave the belief about the attacked
  service as it was, but overwrites it with absent: from unknown right after a reset,
  and from present after a scan has revealed the ground truth.
\<close>

theorem missed_exploit_overwrites_belief:
  "reachable ([example_state0] ! current_state example_env)
     (target (risky_exploit (0, 0) 0)) = Inr True \<and>
   map_of (machines (network example_env)) (target (risky_exploit (0, 0) 0))
     = Some \<lparr>m_services = [True, False], m_value = 0\<rparr> \<and>
   service (risky_exploit (0, 0) 0) = Some 0 \<and>
   \<not> 7 / 10 < prob (risky_exploit (0, 0) 0) \<and>
   step example_env [example_state0] (risky_exploit (0, 0) 0) (7 / 10)
     = Inr ((1, - 1, False), [example_state_miss, example_state_miss]) \<and>
   service_state ([example_state0] ! current_state example_env) (0, 0) 0 = Inr unknown \<and>
   service_state ([example_state_miss, example_state_miss] ! 1) (0, 0) 0 = Inr absent \<and>
   step example_env [example_state0] (scan_action (0, 0)) 0
     = Inr ((1, - 1, False), [example_state_scan, example_state_scan]) \<and>
   service_state ([example_state_scan, example_state_scan] ! current_state example_env)
     (0, 0) 0 = Inr present \<and>
   step example_env [example_state_scan, example_state_scan] (risky_exploit (0, 0) 0) (7 / 10)
     = Inr ((2, - 1, False),
         [example_state_scan_miss, example_state_scan, example_state_scan_miss]) \<and>
   service_state
     ([example_state_scan_miss, example_state_scan, example_state_scan_miss] ! 2) (0, 0) 0
     = Inr absent"
  using step_example_miss step_example_scan step_example_scan_miss
  by (simp add: example_defs reachable_def service_state_def)

text \<open>
  Claim C1 fails on the code. A scan of the unreachable address \<open>(1, 0)\<close> costs the
  agent, returns \<open>done = False\<close> and leaves the store as it is, but the object it
  returns is the controller's own observation (reference 0), not a copy: the next
  successful exploit changes the object the caller holds.
\<close>

theorem unreachable_step_returns_live_reference:
  "reachable ([example_state0, example_state0] ! current_state example_env)
     (target (scan_action (1, 0))) = Inr False \<and>
   step example_env [example_state0, example_state0] (scan_action (1, 0)) 0
     = Inr ((current_state example_env, - cost (scan_action (1, 0)), False),
         [example_state0, example_state0]) \<and>
   step example_env [example_state0, example_state0] (exploit_action (0, 0) 0) 0
     = Inr ((2, - 1, False), [example_state1, example_state0, example_state1]) \<and>
   [example_state1, example_state0, example_state1] ! current_state example_env
     \<noteq> [example_state0, example_state0] ! current_state example_env"
  using step_example_unreachable step_example_after
  by (simp add: example_defs reachable_def)

end
